theory Spec2Isabelle
  imports Main "HOL-Library.Word"
begin

unbundle bit_operations_syntax

section \<open>Data model of the interpreter's tensor values\<close>

text \<open>
  The header \<^verbatim>\<open>tensor_or_memref.h\<close> declares three types: \<^verbatim>\<open>BufferView\<close>,
  \<^verbatim>\<open>Buffer\<close> and \<^verbatim>\<open>TensorOrMemref<T>\<close>. Values of type \<^verbatim>\<open>int64_t\<close> and
  \<^verbatim>\<open>size_t\<close> are 64-bit words; \<^verbatim>\<open>int64_t\<close> is read through \<open>sint\<close> and compared
  with the signed orders \<open>\<le>s\<close> and \<open><s\<close>. A \<^verbatim>\<open>char\<close> is an 8-bit word.
\<close>

type_synonym int64 = "64 word"
type_synonym size_t = "64 word"
type_synonym byte = "8 word"

text \<open>
  Failures of the C++ program are values. \<open>AssertionFailed msg\<close> is a failing
  \<^verbatim>\<open>assert(cond && msg)\<close> (assertions are compiled in). \<open>UndefinedBehaviour\<close> is
  an access outside an array or through a pointer that refers to no buffer.
\<close>

datatype error = AssertionFailed string | UndefinedBehaviour

record BufferView =
  offset :: int64
  sizes :: "int64 list"
  strides :: "int64 list"
  numVectorDims :: "int64 option"
  isVector :: bool

text \<open>\<^verbatim>\<open>std::optional<T>::value_or\<close>.\<close>

fun value_or :: "'a option \<Rightarrow> 'a \<Rightarrow> 'a" where
  "value_or None d = d"
| "value_or (Some x) d = x"

text \<open>
  \<^verbatim>\<open>int64_t rank() const { return sizes.size() - numVectorDims.value_or(0); }\<close>
  The subtraction is carried out in \<^verbatim>\<open>size_t\<close> and converted back to \<^verbatim>\<open>int64_t\<close>.
\<close>

definition rank :: "BufferView \<Rightarrow> int64" where
  "rank v = of_nat (length (sizes v)) - value_or (numVectorDims v) 0"

subsection \<open>Buffer\<close>

record Buffer =
  storage :: "byte list"
  isDeallocated :: bool

text \<open>
  \<^verbatim>\<open>Buffer(Dummy, size_t numElements, size_t elementSize) : storage(numElements * elementSize) {}\<close>
  The vector is value-initialised: every byte is 0.
\<close>

definition Buffer_new :: "size_t \<Rightarrow> size_t \<Rightarrow> Buffer" where
  "Buffer_new numElements elementSize =
     \<lparr>storage = replicate (unat (numElements * elementSize)) 0, isDeallocated = False\<rparr>"

definition getByteSize :: "Buffer \<Rightarrow> int64" where
  "getByteSize b = of_nat (length (storage b))"

definition deallocate :: "Buffer \<Rightarrow> Buffer" where
  "deallocate b = b\<lparr>isDeallocated := True\<rparr>"

definition deallocated :: "Buffer \<Rightarrow> bool" where
  "deallocated b = isDeallocated b"

text \<open>
  \<^verbatim>\<open>char* at(int64_t idx, int64_t elementSize)\<close> asserts that the buffer is live and
  returns the address \<^verbatim>\<open>&storage.data()[idx * elementSize]\<close>. The address is modelled
  as the byte offset from \<^verbatim>\<open>storage.data()\<close>, an unbounded integer; whether it lies
  inside the storage is checked where the address is dereferenced.
\<close>

definition Buffer_at :: "Buffer \<Rightarrow> int64 \<Rightarrow> int64 \<Rightarrow> error + int" where
  "Buffer_at b idx elementSize =
     (if isDeallocated b then Inl (AssertionFailed ''accessing deallocated buffer'')
      else Inr (sint idx * sint elementSize))"

text \<open>Reading and writing \<open>n\<close> bytes through an address obtained from \<open>Buffer_at\<close>.\<close>

definition in_storage :: "Buffer \<Rightarrow> int \<Rightarrow> nat \<Rightarrow> bool" where
  "in_storage b p n = (0 \<le> p \<and> nat p + n \<le> length (storage b))"

definition read_bytes :: "Buffer \<Rightarrow> int \<Rightarrow> nat \<Rightarrow> error + byte list" where
  "read_bytes b p n =
     (if in_storage b p n then Inr (take n (drop (nat p) (storage b)))
      else Inl UndefinedBehaviour)"

definition write_bytes :: "Buffer \<Rightarrow> int \<Rightarrow> byte list \<Rightarrow> error + Buffer" where
  "write_bytes b p bs =
     (if in_storage b p (length bs)
      then Inr (b\<lparr>storage := take (nat p) (storage b) @ bs @ drop (nat p + length bs) (storage b)\<rparr>)
      else Inl UndefinedBehaviour)"

text \<open>
  The public interface of a \<^verbatim>\<open>Buffer\<close> object, as operations a client can apply to
  it one after the other: the two \<^verbatim>\<open>at\<close> overloads (the client reads through the
  \<^verbatim>\<open>const char*\<close> and may write through the \<^verbatim>\<open>char*\<close>), \<^verbatim>\<open>getByteSize\<close>,
  \<^verbatim>\<open>deallocate\<close> and \<^verbatim>\<open>deallocated\<close>.
\<close>

datatype buffer_op =
    OpAtRead int64 int64 nat
  | OpAtWrite int64 int64 "byte list"
  | OpGetByteSize
  | OpDeallocate
  | OpDeallocated

fun buffer_step :: "Buffer \<Rightarrow> buffer_op \<Rightarrow> error + Buffer" where
  "buffer_step b (OpAtRead idx es n) =
     (case Buffer_at b idx es of Inl e \<Rightarrow> Inl e
      | Inr p \<Rightarrow> (case read_bytes b p n of Inl e \<Rightarrow> Inl e | Inr _ \<Rightarrow> Inr b))"
| "buffer_step b (OpAtWrite idx es bs) =
     (case Buffer_at b idx es of Inl e \<Rightarrow> Inl e | Inr p \<Rightarrow> write_bytes b p bs)"
| "buffer_step b OpGetByteSize = Inr b"
| "buffer_step b OpDeallocate = Inr (deallocate b)"
| "buffer_step b OpDeallocated = Inr b"

fun buffer_run :: "Buffer \<Rightarrow> buffer_op list \<Rightarrow> error + Buffer" where
  "buffer_run b [] = Inr b"
| "buffer_run b (x # xs) =
     (case buffer_step b x of Inl e \<Rightarrow> Inl e | Inr b' \<Rightarrow> buffer_run b' xs)"

subsection \<open>View geometry declared in the header, defined elsewhere\<close>

text \<open>
  The header declares \<^verbatim>\<open>inBounds\<close>, \<^verbatim>\<open>getPhysicalIndex\<close>, \<^verbatim>\<open>getNumElements\<close>,
  \<^verbatim>\<open>getDefaultStrides\<close> and \<^verbatim>\<open>getStridesForLayout\<close>; their bodies are in the
  implementation file, which is not among the sources. The five definitions below follow
  the specification, over the header's types.
\<close>

text \<open>
  Modelled from the spec: the body of \<^verbatim>\<open>BufferView::inBounds\<close> is missing.
  ``true iff every \<^verbatim>\<open>0 <= indices[i] < sizes[i]\<close>''. An index entry with no
  corresponding size has no bound to satisfy and is not in bounds.
\<close>

definition inBounds :: "BufferView \<Rightarrow> int64 list \<Rightarrow> bool" where
  "inBounds v viewIndices =
     (length viewIndices \<le> length (sizes v) \<and>
      list_all (\<lambda>(i, s). 0 \<le>s i \<and> i <s s) (zip viewIndices (sizes v)))"

text \<open>
  Modelled from the spec: the body of \<^verbatim>\<open>BufferView::getPhysicalIndex\<close> is missing.
  ``physical offset = \<^verbatim>\<open>offset + \<Sigma> logicalIndices[i] * strides[i]\<close>'', in \<^verbatim>\<open>int64_t\<close>.
\<close>

definition getPhysicalIndex :: "BufferView \<Rightarrow> int64 list \<Rightarrow> int64" where
  "getPhysicalIndex v viewindices =
     offset v + sum_list (map (\<lambda>(i, s). i * s) (zip viewindices (strides v)))"

text \<open>The entries of \<open>xs\<close> without the trailing \<open>n\<close>.\<close>

definition drop_back :: "nat \<Rightarrow> 'a list \<Rightarrow> 'a list" where
  "drop_back n xs = take (length xs - n) xs"

text \<open>
  Modelled from the spec: the body of \<^verbatim>\<open>BufferView::getNumElements\<close> is missing.
  ``product of all \<^verbatim>\<open>sizes\<close> entries (optionally excluding the trailing vector
  dimensions)''; an empty \<^verbatim>\<open>sizes\<close> yields 1. The result type is \<^verbatim>\<open>int64_t\<close>.
\<close>

definition getNumElements :: "BufferView \<Rightarrow> bool \<Rightarrow> int64" where
  "getNumElements v includeVectorDims =
     prod_list (drop_back (if includeVectorDims then 0 else unat (value_or (numVectorDims v) 0))
                          (sizes v))"

text \<open>
  Modelled from the spec: the body of \<^verbatim>\<open>BufferView::getDefaultStrides\<close> is missing.
  ``row-major strides: last dimension has stride 1, each preceding dimension's stride is
  the product of the next dimension's size and stride''.
\<close>

fun getDefaultStrides :: "int64 list \<Rightarrow> int64 list" where
  "getDefaultStrides [] = []"
| "getDefaultStrides [s] = [1]"
| "getDefaultStrides (s # s' # ss) =
     (case getDefaultStrides (s' # ss) of
        [] \<Rightarrow> []
      | st # sts \<Rightarrow> (s' * st) # st # sts)"


subsection \<open>The logical index sequence\<close>

record LogicalIndexView =
  liv_view :: BufferView
  liv_includeVectorDims :: bool

record Iterator =
  it_view :: BufferView
  viewIndices :: "int64 list"
  includeVectorDims :: bool

definition indices :: "BufferView \<Rightarrow> bool \<Rightarrow> LogicalIndexView" where
  "indices v incl = \<lparr>liv_view = v, liv_includeVectorDims = incl\<rparr>"

text \<open>\<^verbatim>\<open>Iterator end() const { return {view, {-1}, false}; }\<close>\<close>

definition end_it :: "LogicalIndexView \<Rightarrow> Iterator" where
  "end_it l = \<lparr>it_view = liv_view l, viewIndices = [- 1], includeVectorDims = False\<rparr>"

text \<open>
  \<^verbatim>\<open>begin()\<close>: the guard calls \<^verbatim>\<open>getNumElements()\<close> with its default argument
  \<^verbatim>\<open>includeVectorDims = false\<close>. \<^verbatim>\<open>SmallVector<int64_t>(n)\<close> holds \<open>n\<close> zeros, with
  \<open>n\<close> converted to \<^verbatim>\<open>size_t\<close>.
\<close>

definition begin_it :: "LogicalIndexView \<Rightarrow> Iterator" where
  "begin_it l =
     (if getNumElements (liv_view l) False = 0 then end_it l
      else \<lparr>it_view = liv_view l,
            viewIndices = replicate
              (unat (rank (liv_view l) +
                     (if liv_includeVectorDims l then value_or (numVectorDims (liv_view l)) 0 else 0)))
              0,
            includeVectorDims = liv_includeVectorDims l\<rparr>)"

text \<open>\<^verbatim>\<open>operator==\<close> of the iterator compares the index vectors only.\<close>

definition it_eq :: "Iterator \<Rightarrow> Iterator \<Rightarrow> bool" where
  "it_eq a b = (viewIndices a = viewIndices b)"

text \<open>
  \<^verbatim>\<open>std::advance(sizeIt, n)\<close> on the reverse iterator \<^verbatim>\<open>sizes.rbegin()\<close>: the list is
  \<^verbatim>\<open>sizes\<close> read from the back. Moving before \<^verbatim>\<open>rbegin()\<close> or past \<^verbatim>\<open>rend()\<close>
  is undefined.
\<close>

definition advance :: "int64 list \<Rightarrow> int64 \<Rightarrow> error + int64 list" where
  "advance rs n =
     (if 0 \<le>s n \<and> unat n \<le> length rs then Inr (drop (unat n) rs) else Inl UndefinedBehaviour)"

text \<open>
  The \<^verbatim>\<open>for\<close> loop of \<^verbatim>\<open>operator++\<close>, on the index vector and the sizes both read from
  the back. \<open>Inr (Some is)\<close>: the loop returned with the indices \<open>is\<close>; \<open>Inr None\<close>:
  the loop ran to \<^verbatim>\<open>rend()\<close>; \<open>Inl\<close>: \<^verbatim>\<open>sizeIt\<close> was read past \<^verbatim>\<open>sizes.rend()\<close>, or
  \<^verbatim>\<open>++*indexIt\<close> overflowed \<^verbatim>\<open>int64_t\<close>.
\<close>

fun odometer :: "int64 list \<Rightarrow> int64 list \<Rightarrow> error + int64 list option" where
  "odometer [] ss = Inr None"
| "odometer (i # is) [] = Inl UndefinedBehaviour"
| "odometer (i # is) (s # ss) =
     (if i = 0x7FFFFFFFFFFFFFFF then Inl UndefinedBehaviour
      else if i + 1 <s s then Inr (Some ((i + 1) # is))
      else (case odometer is ss of
              Inl e \<Rightarrow> Inl e
            | Inr None \<Rightarrow> Inr None
            | Inr (Some is') \<Rightarrow> Inr (Some (0 # is'))))"

definition op_inc :: "Iterator \<Rightarrow> error + Iterator" where
  "op_inc it =
     (case (if includeVectorDims it then Inr (rev (sizes (it_view it)))
            else advance (rev (sizes (it_view it))) (value_or (numVectorDims (it_view it)) 0)) of
        Inl e \<Rightarrow> Inl e
      | Inr rs \<Rightarrow>
          (case odometer (rev (viewIndices it)) rs of
             Inl e \<Rightarrow> Inl e
           | Inr None \<Rightarrow> Inr (it\<lparr>viewIndices := [- 1]\<rparr>)
           | Inr (Some is) \<Rightarrow> Inr (it\<lparr>viewIndices := rev is\<rparr>)))"

text \<open>
  \<^verbatim>\<open>for (const auto& t : l) emit(t);\<close> that is
  \<^verbatim>\<open>for (auto it = l.begin(), e = l.end(); it != e; ++it) emit(*it);\<close>
  The result is the list of emitted tuples and the iterator the loop stopped at;
  \<open>None\<close> is a loop that never stops.
\<close>

partial_function (option) range_for ::
  "Iterator \<Rightarrow> Iterator \<Rightarrow> (error + int64 list list \<times> Iterator) option" where
  "range_for it e =
     (if it_eq it e then Some (Inr ([], it))
      else (case op_inc it of
              Inl err \<Rightarrow> Some (Inl err)
            | Inr it' \<Rightarrow>
                Option.bind (range_for it' e)
                  (\<lambda>r. case r of
                         Inl err \<Rightarrow> Some (Inl err)
                       | Inr (ts, f) \<Rightarrow> Some (Inr (viewIndices it # ts, f)))))"

declare range_for.simps [code]

definition emitted :: "BufferView \<Rightarrow> bool \<Rightarrow> (error + int64 list list \<times> Iterator) option" where
  "emitted v incl = range_for (begin_it (indices v incl)) (end_it (indices v incl))"

subsection \<open>TensorOrMemref\<close>

text \<open>
  The template parameter \<^verbatim>\<open>T\<close>: its size, how \<^verbatim>\<open>reinterpret_cast<T*>\<close> reads and
  writes an object in \<^verbatim>\<open>sizeof(T)\<close> bytes, \<^verbatim>\<open>std::is_floating_point_v<T>\<close>,
  \<^verbatim>\<open>std::isnan\<close> and \<^verbatim>\<open>operator!=\<close>.
\<close>

record 'a element_type =
  sizeofT :: nat
  load :: "byte list \<Rightarrow> 'a"
  store :: "'a \<Rightarrow> byte list"
  is_floating_point :: bool
  isnan :: "'a \<Rightarrow> bool"
  neq :: "'a \<Rightarrow> 'a \<Rightarrow> bool"

text \<open>
  A \<^verbatim>\<open>std::shared_ptr<Buffer>\<close> is an index into the list of all buffers allocated so
  far; an index outside the list refers to no buffer.
\<close>

type_synonym heap = "Buffer list"

record TensorOrMemref =
  buffer :: nat
  view :: BufferView

definition deref :: "heap \<Rightarrow> nat \<Rightarrow> error + Buffer" where
  "deref h p = (if p < length h then Inr (h ! p) else Inl UndefinedBehaviour)"




text \<open>
  \<^verbatim>\<open>const T& at(indices) const\<close>, followed by the read of the \<^verbatim>\<open>T\<close> it refers to.
\<close>

definition at :: "'a element_type \<Rightarrow> heap \<Rightarrow> TensorOrMemref \<Rightarrow> int64 list \<Rightarrow> error + 'a" where
  "at T h t idx =
     (if \<not> inBounds (view t) idx then Inl (AssertionFailed ''out of bounds'')
      else (case deref h (buffer t) of
              Inl e \<Rightarrow> Inl e
            | Inr b \<Rightarrow>
                (case Buffer_at b (getPhysicalIndex (view t) idx) (of_nat (sizeofT T)) of
                   Inl e \<Rightarrow> Inl e
                 | Inr p \<Rightarrow>
                     (case read_bytes b p (sizeofT T) of
                        Inl e \<Rightarrow> Inl e
                      | Inr bs \<Rightarrow> Inr (load T bs)))))"

text \<open>\<^verbatim>\<open>T& at(indices)\<close>, followed by the assignment of \<open>x\<close> to the \<^verbatim>\<open>T\<close> it refers to.\<close>

definition at_assign ::
  "'a element_type \<Rightarrow> heap \<Rightarrow> TensorOrMemref \<Rightarrow> int64 list \<Rightarrow> 'a \<Rightarrow> error + heap" where
  "at_assign T h t idx x =
     (if \<not> inBounds (view t) idx then Inl (AssertionFailed ''out of bounds'')
      else (case deref h (buffer t) of
              Inl e \<Rightarrow> Inl e
            | Inr b \<Rightarrow>
                (case Buffer_at b (getPhysicalIndex (view t) idx) (of_nat (sizeofT T)) of
                   Inl e \<Rightarrow> Inl e
                 | Inr p \<Rightarrow>
                     (case write_bytes b p (store T x) of
                        Inl e \<Rightarrow> Inl e
                      | Inr b' \<Rightarrow> Inr (h[buffer t := b'])))))"

text \<open>
  \<^verbatim>\<open>vectorAt\<close>. The ranges \<^verbatim>\<open>{view.strides.begin() + view.rank(), view.strides.end()}\<close>
  and the same for \<^verbatim>\<open>sizes\<close> are valid when \<^verbatim>\<open>rank()\<close> is between 0 and the length of
  the vector.
\<close>

definition tail_from :: "int64 list \<Rightarrow> int64 \<Rightarrow> error + int64 list" where
  "tail_from xs r =
     (if 0 \<le>s r \<and> unat r \<le> length xs then Inr (drop (unat r) xs) else Inl UndefinedBehaviour)"

definition vectorAt :: "TensorOrMemref \<Rightarrow> int64 list \<Rightarrow> error + TensorOrMemref" where
  "vectorAt t idx =
     (if \<not> inBounds (view t) idx then Inl (AssertionFailed ''out of bounds'')
      else (case tail_from (strides (view t)) (rank (view t)) of
              Inl e \<Rightarrow> Inl e
            | Inr sts \<Rightarrow>
                (case tail_from (sizes (view t)) (rank (view t)) of
                   Inl e \<Rightarrow> Inl e
                 | Inr szs \<Rightarrow>
                     Inr \<lparr>buffer = buffer t,
                          view = \<lparr>offset = getPhysicalIndex (view t) idx, sizes = szs,
                                  strides = sts, numVectorDims = None, isVector = True\<rparr>\<rparr>)))"









subsection \<open>Row-major enumeration\<close>

text \<open>
  What the index sequence is compared with. \<open>digits s\<close> are the values \<open>0, \<dots>, s - 1\<close>
  of one index entry; \<open>enumerated_sizes\<close> are the sizes of the dimensions a sequence
  runs over (all of them, or all but the trailing vector dimensions); \<open>row_major\<close> lists
  all index tuples below the given sizes with the last entry varying fastest, and
  \<open>lex_less\<close> is the lexicographic order on tuples in which that list is increasing.
\<close>

definition digits :: "int64 \<Rightarrow> int64 list" where
  "digits s = map of_nat [0..<nat (sint s)]"

definition enumerated_sizes :: "BufferView \<Rightarrow> bool \<Rightarrow> int64 list" where
  "enumerated_sizes v incl =
     drop_back (if incl then 0 else unat (value_or (numVectorDims v) 0)) (sizes v)"

definition row_major :: "int64 list \<Rightarrow> int64 list list" where
  "row_major szs = product_lists (map digits szs)"

definition lex_less :: "int64 list \<Rightarrow> int64 list \<Rightarrow> bool" where
  "lex_less a b = ((a, b) \<in> lexord {(x, y). x <s y})"

text \<open>
  One run of the loop of \<^verbatim>\<open>operator++\<close> on the index tuple \<open>a\<close> over the sizes
  \<open>ss\<close>: it returns with the tuple \<open>b\<close>, or it runs to the end.
\<close>

definition steps_to :: "int64 list \<Rightarrow> int64 list \<Rightarrow> int64 list \<Rightarrow> bool" where
  "steps_to ss a b =
     (length a = length ss \<and> odometer (rev a) (rev ss) = Inr (Some (rev b)))"

definition carries_out :: "int64 list \<Rightarrow> int64 list \<Rightarrow> bool" where
  "carries_out ss a = (length a = length ss \<and> odometer (rev a) (rev ss) = Inr None)"

definition mk_it :: "BufferView \<Rightarrow> bool \<Rightarrow> int64 list \<Rightarrow> Iterator" where
  "mk_it v incl t = \<lparr>it_view = v, viewIndices = t, includeVectorDims = incl\<rparr>"

subsection \<open>Elements of a value\<close>

text \<open>
  The byte address at which \<^verbatim>\<open>at(indices)\<close> reads, the element it finds there, and the
  views whose index tuples all have their element inside a given buffer.
\<close>

definition address :: "'a element_type \<Rightarrow> BufferView \<Rightarrow> int64 list \<Rightarrow> int" where
  "address T v idx = sint (getPhysicalIndex v idx) * sint (of_nat (sizeofT T) :: int64)"

definition fits :: "'a element_type \<Rightarrow> Buffer \<Rightarrow> BufferView \<Rightarrow> bool" where
  "fits T b v =
     (\<forall>idx \<in> set (row_major (sizes v)). in_storage b (address T v idx) (sizeofT T))"








subsection \<open>Two element types\<close>

text \<open>
  \<^verbatim>\<open>float\<close> as its 32 bits, stored in four bytes with the least significant first. A
  value is NaN when its exponent bits are all set and its fraction is not zero; two
  values differ under \<^verbatim>\<open>!=\<close> when one is NaN, or when their bits differ and they are not
  both zeros. \<^verbatim>\<open>std::complex<float>\<close> is a pair of such values; it is not a
  floating-point type, and two values differ when their real or imaginary parts do.
\<close>

definition le_bytes :: "32 word \<Rightarrow> byte list" where
  "le_bytes w = map (\<lambda>k. ucast (drop_bit (8 * k) w)) [0, 1, 2, 3]"






subsection \<open>Sub-views\<close>

text \<open>
  Modelled from the spec: the body of \<^verbatim>\<open>BufferView::subview\<close> is missing; the header
  declares \<^verbatim>\<open>bool subview(ArrayRef<int64_t> subviewoffsets, ArrayRef<int64_t> subviewsizes,
  ArrayRef<int64_t> subviewstrides)\<close>. ``Applies an independent offset/size/stride triple
  per dimension simultaneously (general form of slice); returns failure (boolean false) if
  the resulting region would be invalid (any requested size exceeds the current bound
  after accounting for the requested stride)''; a slice ``narrows a dimension in place to
  a sub-range with an optional stride multiplier''. The specification leaves the exact
  condition open and asks for the conservative reading, which is taken here: one triple
  for each of the leading dimensions; in a dimension of which \<open>sz \<ge> 1\<close> entries are
  requested, the first selected index \<open>off\<close> and the last one \<open>off + (sz - 1) * str\<close> lie
  inside the current bound; a negative size is refused. The result is the returned
  \<^verbatim>\<open>bool\<close> and the view after the call, which a failed call leaves as it was.
\<close>

definition dim_valid :: "int64 \<Rightarrow> int64 \<Rightarrow> int64 \<Rightarrow> int64 \<Rightarrow> bool" where
  "dim_valid bound off sz str =
     (0 \<le> sint sz \<and>
      (sint sz = 0 \<or>
       0 \<le> sint off \<and> sint off < sint bound \<and>
       0 \<le> sint off + (sint sz - 1) * sint str \<and>
       sint off + (sint sz - 1) * sint str < sint bound))"

definition subview ::
  "BufferView \<Rightarrow> int64 list \<Rightarrow> int64 list \<Rightarrow> int64 list \<Rightarrow> bool \<times> BufferView" where
  "subview v subviewoffsets subviewsizes subviewstrides =
     (let m = length subviewoffsets in
      if length subviewsizes = m \<and> length subviewstrides = m \<and>
         m \<le> length (sizes v) \<and> m \<le> length (strides v) \<and>
         list_all (\<lambda>(bound, off, sz, str). dim_valid bound off sz str)
           (zip (sizes v) (zip subviewoffsets (zip subviewsizes subviewstrides)))
      then (True,
            v\<lparr>offset := offset v +
                   sum_list (map (\<lambda>(off, st). off * st) (zip subviewoffsets (strides v))),
              sizes := subviewsizes @ drop m (sizes v),
              strides := map (\<lambda>(st, str). st * str) (zip (take m (strides v)) subviewstrides) @
                         drop m (strides v)\<rparr>)
      else (False, v))"

text \<open>The index of the original view that an index of the sub-view selects.\<close>

fun base_index :: "int64 list \<Rightarrow> int64 list \<Rightarrow> int64 list \<Rightarrow> int64 list" where
  "base_index (off # offs) (str # strs) (i # idx) = (off + i * str) # base_index offs strs idx"
| "base_index (off # offs) (str # strs) [] = []"
| "base_index (off # offs) [] idx = idx"
| "base_index [] strs idx = idx"

section \<open>Facts about 64-bit integers\<close>

lemma sint_bounds_64: "- (2 ^ 63) \<le> sint (w :: 64 word) \<and> sint w < 2 ^ 63"
  using sint_greater_eq [of w] sint_less [of w] by simp

lemma sint_of_nat_64:
  "n < 2 ^ 63 \<Longrightarrow> sint (of_nat n :: 64 word) = int n"
  by (simp add: signed_of_nat signed_take_bit_int_eq_self)

lemma sint_sub_64:
  "- (2 ^ 63) \<le> sint (a :: 64 word) - sint b \<Longrightarrow> sint a - sint b < 2 ^ 63 \<Longrightarrow>
   sint (a - b) = sint a - sint b"
  by (simp add: sint_word_ariths signed_take_bit_int_eq_self)

lemma of_nat_nat_sint_64:
  "0 \<le>s (w :: 64 word) \<Longrightarrow> of_nat (nat (sint w)) = w"
  by (simp add: word_sle_eq)

lemma unat_nonneg_64:
  assumes "0 \<le>s (w :: 64 word)"
  shows "int (unat w) = sint w"
proof -
  have nn: "0 \<le> sint w" using assms by (simp add: word_sle_eq)
  have lt: "nat (sint w) < 2 ^ 63"
    using sint_bounds_64 [of w] nn by (simp add: nat_less_iff)
  have "unat w = unat (of_nat (nat (sint w)) :: 64 word)"
    using of_nat_nat_sint_64 [OF assms] by simp
  also have "\<dots> = nat (sint w)"
    using lt by (simp add: unat_of_nat)
  finally show ?thesis using nn by simp
qed

lemma unat_nonneg_lt_64:
  assumes "0 \<le>s (w :: 64 word)"
  shows "unat w < 2 ^ 63"
proof -
  have "int (unat w) < int (2 ^ 63)"
    using unat_nonneg_64 [OF assms] sint_bounds_64 [of w] by simp
  then show ?thesis by (simp only: of_nat_less_iff)
qed

lemma unat_of_nat_len_64: "n < 2 ^ 63 \<Longrightarrow> unat (of_nat n :: 64 word) = n"
  by (simp add: unat_of_nat)


lemma sint_word_of_int_range:
  assumes "0 \<le> k" and "k < 2 ^ 63"
  shows "sint (word_of_int k :: 64 word) = k"
  using assms by (simp add: signed_of_int signed_take_bit_int_eq_self)

section \<open>Rank of a view\<close>

lemma rank_sint:
  assumes "length (sizes v) < 2 ^ 63"
    and "0 \<le>s value_or (numVectorDims v) 0"
  shows "sint (rank v) = int (length (sizes v)) - sint (value_or (numVectorDims v) 0)"
proof -
  let ?n = "value_or (numVectorDims v) 0"
  have n0: "0 \<le> sint ?n" using assms(2) by (simp add: word_sle_eq)
  have nb: "sint ?n < 2 ^ 63" using sint_bounds_64 [of ?n] by simp
  have l: "sint (of_nat (length (sizes v)) :: 64 word) = int (length (sizes v))"
    using assms(1) by (rule sint_of_nat_64)
  have lb: "int (length (sizes v)) < 2 ^ 63" using assms(1) by simp
  have "sint (rank v) = sint (of_nat (length (sizes v)) :: 64 word) - sint ?n"
    unfolding rank_def using n0 nb lb l by (intro sint_sub_64) simp_all
  then show ?thesis using l by simp
qed

text \<open>
  Claim C7, as the code has it. \<^verbatim>\<open>BufferView\<close> is an aggregate: it has no constructor
  and nothing checks \<^verbatim>\<open>numVectorDims\<close> against \<^verbatim>\<open>sizes\<close>. For a view with fewer than
  \<open>2^63\<close> dimensions and a non-negative \<^verbatim>\<open>numVectorDims\<close> (or none), \<^verbatim>\<open>rank()\<close> is
  \<^verbatim>\<open>sizes.size()\<close> minus \<^verbatim>\<open>numVectorDims.value_or(0)\<close>, and it is non-negative exactly
  when \<^verbatim>\<open>numVectorDims.value_or(0)\<close> is at most \<^verbatim>\<open>sizes.size()\<close>.
\<close>

theorem rank_formula:
  assumes "length (sizes v) < 2 ^ 63"
    and "0 \<le>s value_or (numVectorDims v) 0"
  shows "sint (rank v) = int (length (sizes v)) - sint (value_or (numVectorDims v) 0) \<and>
         (0 \<le>s rank v \<longleftrightarrow> sint (value_or (numVectorDims v) 0) \<le> int (length (sizes v)))"
  using rank_sint [OF assms] by (simp add: word_sle_eq)

theorem rank_formula_witness:
  "sint (rank \<lparr>offset = 0, sizes = [2, 3, 4], strides = [12, 4, 1], numVectorDims = Some 1,
                isVector = False\<rparr>) = 2 \<and>
   0 \<le>s rank \<lparr>offset = 0, sizes = [2, 3, 4], strides = [12, 4, 1], numVectorDims = Some 1,
                isVector = False\<rparr>"
  using rank_formula [of "\<lparr>offset = 0, sizes = [2, 3, 4], strides = [12, 4, 1],
      numVectorDims = Some 1, isVector = False\<rparr>"]
  by (simp add: word_sle_eq)

text \<open>
  Claim C7 as stated fails: the view with no sizes and \<^verbatim>\<open>numVectorDims = 1\<close> is
  constructed without any assertion, and its rank is negative.
\<close>

theorem rank_negative_counterexample:
  "\<not> 0 \<le>s rank \<lparr>offset = 0, sizes = [], strides = [], numVectorDims = Some 1, isVector = False\<rparr>"
  by (simp add: rank_def word_sle_eq)

section \<open>Buffer deallocation\<close>

lemma buffer_step_keeps_flag:
  "isDeallocated b \<Longrightarrow> buffer_step b x = Inr b' \<Longrightarrow> isDeallocated b'"
  by (cases x) (auto simp: Buffer_at_def deallocate_def split: sum.splits if_splits)

lemma buffer_run_keeps_flag:
  "isDeallocated b \<Longrightarrow> buffer_run b xs = Inr b' \<Longrightarrow> isDeallocated b'"
proof (induction xs arbitrary: b)
  case Nil
  then show ?case by simp
next
  case (Cons x xs)
  then show ?case
    by (auto split: sum.splits dest: buffer_step_keeps_flag)
qed

text \<open>
  Claim C10. After \<^verbatim>\<open>deallocate()\<close>, \<^verbatim>\<open>deallocated()\<close> is true and stays true after
  every sequence of interface operations that runs to its end; a second \<^verbatim>\<open>deallocate()\<close>
  changes nothing; \<^verbatim>\<open>deallocate()\<close> leaves \<^verbatim>\<open>getByteSize()\<close> and the stored bytes as
  they were.
\<close>

theorem deallocate_irreversible:
  "(buffer_run (deallocate b) ops = Inr b' \<longrightarrow> deallocated b') \<and>
   deallocated (deallocate b) \<and>
   deallocate (deallocate b) = deallocate b \<and>
   getByteSize (deallocate b) = getByteSize b \<and>
   storage (deallocate b) = storage b"
  using buffer_run_keeps_flag [of "deallocate b" ops b']
  by (simp add: deallocate_def deallocated_def getByteSize_def)

theorem deallocate_irreversible_witness:
  "buffer_run (deallocate (Buffer_new 2 4)) [OpDeallocated, OpDeallocate, OpGetByteSize]
     = Inr (deallocate (Buffer_new 2 4)) \<and>
   deallocated (deallocate (Buffer_new 2 4))"
  using deallocate_irreversible [of "Buffer_new 2 4" "[OpDeallocated, OpDeallocate, OpGetByteSize]"
      "deallocate (Buffer_new 2 4)"]
  by (simp add: deallocate_def)

section \<open>Assertions of element access\<close>

text \<open>
  Claim C8. \<^verbatim>\<open>TensorOrMemref::at\<close> (both overloads) fails the assertion
  \<^verbatim>\<open>"out of bounds"\<close> when \<^verbatim>\<open>view.inBounds(indices)\<close> is false; \<^verbatim>\<open>Buffer::at\<close> fails the
  assertion \<^verbatim>\<open>"accessing deallocated buffer"\<close> when the buffer is marked deallocated, and
  so does \<^verbatim>\<open>TensorOrMemref::at\<close> with in-bounds indices on such a buffer. When the indices
  are in bounds and the buffer is not deallocated, no assertion fails in any \<^verbatim>\<open>at\<close>.
\<close>

theorem at_assertions:
  "(\<not> inBounds (view t) idx \<longrightarrow>
      at T h t idx = Inl (AssertionFailed ''out of bounds'') \<and>
      at_assign T h t idx x = Inl (AssertionFailed ''out of bounds'')) \<and>
   (deallocated b \<longrightarrow>
      Buffer_at b i es = Inl (AssertionFailed ''accessing deallocated buffer'')) \<and>
   (deref h (buffer t) = Inr b \<and> deallocated b \<and> inBounds (view t) idx \<longrightarrow>
      at T h t idx = Inl (AssertionFailed ''accessing deallocated buffer'') \<and>
      at_assign T h t idx x = Inl (AssertionFailed ''accessing deallocated buffer'')) \<and>
   (deref h (buffer t) = Inr b \<and> \<not> deallocated b \<and> inBounds (view t) idx \<longrightarrow>
      (\<forall>msg. at T h t idx \<noteq> Inl (AssertionFailed msg)) \<and>
      (\<forall>msg. at_assign T h t idx x \<noteq> Inl (AssertionFailed msg)) \<and>
      (\<forall>msg. Buffer_at b i es \<noteq> Inl (AssertionFailed msg)))"
  by (auto simp: at_def at_assign_def Buffer_at_def deallocated_def read_bytes_def write_bytes_def
      split: sum.splits if_splits)

text \<open>
  The theorem at a one-element byte tensor: index 5 is out of bounds; index 0 is in
  bounds and reads the element of a live buffer, and fails on a deallocated one.
\<close>

theorem at_assertions_witness:
  "at \<lparr>sizeofT = 1, load = hd, store = (\<lambda>x. [x]), is_floating_point = False,
        isnan = (\<lambda>x. False), neq = (\<noteq>)\<rparr>
      [\<lparr>storage = [7], isDeallocated = False\<rparr>]
      \<lparr>buffer = 0, view = \<lparr>offset = 0, sizes = [1], strides = [1], numVectorDims = None,
                            isVector = False\<rparr>\<rparr> [5] = Inl (AssertionFailed ''out of bounds'') \<and>
   at \<lparr>sizeofT = 1, load = hd, store = (\<lambda>x. [x]), is_floating_point = False,
        isnan = (\<lambda>x. False), neq = (\<noteq>)\<rparr>
      [\<lparr>storage = [7], isDeallocated = True\<rparr>]
      \<lparr>buffer = 0, view = \<lparr>offset = 0, sizes = [1], strides = [1], numVectorDims = None,
                            isVector = False\<rparr>\<rparr> [0] =
     Inl (AssertionFailed ''accessing deallocated buffer'') \<and>
   at \<lparr>sizeofT = 1, load = hd, store = (\<lambda>x. [x]), is_floating_point = False,
        isnan = (\<lambda>x. False), neq = (\<noteq>)\<rparr>
      [\<lparr>storage = [7], isDeallocated = False\<rparr>]
      \<lparr>buffer = 0, view = \<lparr>offset = 0, sizes = [1], strides = [1], numVectorDims = None,
                            isVector = False\<rparr>\<rparr> [0] = Inr (7 :: byte)"
  using
    at_assertions [of "\<lparr>buffer = 0, view = \<lparr>offset = 0, sizes = [1], strides = [1],
        numVectorDims = None, isVector = False\<rparr>\<rparr>" "[5]"
      "\<lparr>sizeofT = 1, load = hd, store = (\<lambda>x. [x]), is_floating_point = False,
        isnan = (\<lambda>x. False), neq = (\<noteq>)\<rparr>"
      "[\<lparr>storage = [7], isDeallocated = False\<rparr>]" 0
      "\<lparr>storage = [7], isDeallocated = False\<rparr>" 0 1]
    at_assertions [of "\<lparr>buffer = 0, view = \<lparr>offset = 0, sizes = [1], strides = [1],
        numVectorDims = None, isVector = False\<rparr>\<rparr>" "[0]"
      "\<lparr>sizeofT = 1, load = hd, store = (\<lambda>x. [x]), is_floating_point = False,
        isnan = (\<lambda>x. False), neq = (\<noteq>)\<rparr>"
      "[\<lparr>storage = [7], isDeallocated = True\<rparr>]" 0
      "\<lparr>storage = [7], isDeallocated = True\<rparr>" 0 1]
    at_assertions [of "\<lparr>buffer = 0, view = \<lparr>offset = 0, sizes = [1], strides = [1],
        numVectorDims = None, isVector = False\<rparr>\<rparr>" "[0]"
      "\<lparr>sizeofT = 1, load = hd, store = (\<lambda>x. [x]), is_floating_point = False,
        isnan = (\<lambda>x. False), neq = (\<noteq>)\<rparr>"
      "[\<lparr>storage = [7], isDeallocated = False\<rparr>]" 0
      "\<lparr>storage = [7], isDeallocated = False\<rparr>" 0 1]
  by (simp add: inBounds_def deref_def deallocated_def word_sle_eq word_sless_alt at_def
      Buffer_at_def read_bytes_def in_storage_def getPhysicalIndex_def)

section \<open>Vector sub-views\<close>

lemma tail_from_rank:
  assumes "numVectorDims v = Some n" "0 \<le>s n" "unat n \<le> length (sizes v)"
    "length xs = length (sizes v)" "length (sizes v) < 2 ^ 63"
  shows "tail_from xs (rank v) = Inr (drop (length xs - unat n) xs)"
proof -
  have r: "sint (rank v) = int (length (sizes v)) - sint n"
    using rank_sint [of v] assms by simp
  have n: "int (unat n) = sint n" using assms(2) by (rule unat_nonneg_64)
  have le: "sint n \<le> int (length (sizes v))" using n assms(3) by linarith
  have pos: "0 \<le>s rank v" using r le by (simp add: word_sle_eq)
  have "int (unat (rank v)) = sint (rank v)" using pos by (rule unat_nonneg_64)
  then have u: "unat (rank v) = length (sizes v) - unat n"
    using r n assms(3) by linarith
  show ?thesis using pos u assms(4) by (simp add: tail_from_def)
qed

text \<open>
  Claim C5. For a tensor of vectors (\<^verbatim>\<open>numVectorDims = n\<close> with \<open>0 \<le> n \<le>\<close>
  \<^verbatim>\<open>sizes.size()\<close>, one stride per size) and in-bounds indices, \<^verbatim>\<open>vectorAt\<close> returns a
  value on the same buffer whose sizes and strides are the trailing \<open>n\<close> entries of the
  original ones, whose offset is \<^verbatim>\<open>offset\<close> plus the sum of \<^verbatim>\<open>indices[i] * strides[i]\<close>,
  with \<^verbatim>\<open>isVector\<close> set and \<^verbatim>\<open>numVectorDims\<close> unset.
\<close>

theorem vectorAt_view:
  assumes "numVectorDims (view t) = Some n" and "0 \<le>s n"
    and "unat n \<le> length (sizes (view t))"
    and "length (strides (view t)) = length (sizes (view t))"
    and "length (sizes (view t)) < 2 ^ 63"
    and "inBounds (view t) idx"
  shows "vectorAt t idx =
     Inr \<lparr>buffer = buffer t,
          view = \<lparr>offset = offset (view t) +
                    sum_list (map (\<lambda>(i, s). i * s) (zip idx (strides (view t)))),
                  sizes = drop (length (sizes (view t)) - unat n) (sizes (view t)),
                  strides = drop (length (strides (view t)) - unat n) (strides (view t)),
                  numVectorDims = None, isVector = True\<rparr>\<rparr>"
  using assms tail_from_rank [of "view t" n "sizes (view t)"]
    tail_from_rank [of "view t" n "strides (view t)"]
  by (simp add: vectorAt_def getPhysicalIndex_def)

text \<open>
  The example of the claim: tensor shape [2,3] with vector shape [4] in row-major
  strides; the vector at (1,2) has size [4] and starts at the physical index of the
  logical element (1,2,0), which is 20.
\<close>

theorem vectorAt_view_witness:
  "vectorAt \<lparr>buffer = 0, view = \<lparr>offset = 0, sizes = [2, 3, 4], strides = [12, 4, 1],
                                 numVectorDims = Some 1, isVector = False\<rparr>\<rparr> [1, 2] =
     Inr \<lparr>buffer = 0, view = \<lparr>offset = 20, sizes = [4], strides = [1], numVectorDims = None,
                               isVector = True\<rparr>\<rparr> \<and>
   getPhysicalIndex \<lparr>offset = 0, sizes = [2, 3, 4], strides = [12, 4, 1],
                     numVectorDims = Some 1, isVector = False\<rparr> [1, 2, 0] = 20"
  using vectorAt_view [of "\<lparr>buffer = 0, view = \<lparr>offset = 0, sizes = [2, 3, 4],
      strides = [12, 4, 1], numVectorDims = Some 1, isVector = False\<rparr>\<rparr>" 1 "[1, 2]"]
  by (simp add: inBounds_def getPhysicalIndex_def word_sle_eq word_sless_alt)

section \<open>Allocation of empty values\<close>

lemma getDefaultStrides_length [simp]: "length (getDefaultStrides szs) = length szs"
  by (induction szs rule: getDefaultStrides.induct) (auto split: list.splits)




section \<open>The index sequence\<close>

subsection \<open>Index values of one dimension\<close>

lemma sint_word_of_nat_lt:
  assumes "k < nat (sint (s :: 64 word))"
  shows "sint (of_nat k :: 64 word) = int k"
proof -
  have "int k < sint s" using assms by (simp add: zless_nat_eq_int_zless)
  then have "int k < 2 ^ 63" using sint_bounds_64 [of s] by linarith
  then have "k < 2 ^ 63" by simp
  then show ?thesis by (rule sint_of_nat_64)
qed

lemma digits_length [simp]: "length (digits s) = nat (sint s)"
  by (simp add: digits_def)

lemma digits_nth: "k < nat (sint s) \<Longrightarrow> digits s ! k = of_nat k"
  by (simp add: digits_def)

lemma digits_set: "set (digits s) = {d. 0 \<le>s d \<and> d <s s}"
proof (rule set_eqI, rule iffI)
  fix d assume "d \<in> set (digits s)"
  then obtain k where k: "k < nat (sint s)" "d = of_nat k"
    by (auto simp: digits_def)
  have "sint d = int k" using k sint_word_of_nat_lt by simp
  then show "d \<in> {d. 0 \<le>s d \<and> d <s s}"
    using k(1) by (simp add: word_sle_eq word_sless_alt)
next
  fix d assume "d \<in> {d. 0 \<le>s d \<and> d <s s}"
  then have d0: "0 \<le>s d" and ds: "sint d < sint s"
    by (simp_all add: word_sless_alt)
  have "0 \<le> sint d" using d0 by (simp add: word_sle_eq)
  then have "nat (sint d) < nat (sint s)" using ds by linarith
  moreover have "d = of_nat (nat (sint d))" using of_nat_nat_sint_64 [OF d0] by simp
  ultimately have "d \<in> of_nat ` {0..<nat (sint s)}"
    by (intro image_eqI [where x = "nat (sint d)"]) simp_all
  then show "d \<in> set (digits s)"
    by (simp add: digits_def)
qed

lemma digits_not_max: "d \<in> set (digits s) \<Longrightarrow> d \<noteq> 0x7FFFFFFFFFFFFFFF"
proof
  assume "d \<in> set (digits s)" "d = 0x7FFFFFFFFFFFFFFF"
  then have "(0x7FFFFFFFFFFFFFFF :: 64 word) <s s" by (simp add: digits_set)
  then have "sint (0x7FFFFFFFFFFFFFFF :: 64 word) < sint s" by (simp add: word_sless_alt)
  then show False using sint_bounds_64 [of s] by simp
qed


lemma digits_successively:
  "successively (\<lambda>a b. b = a + 1 \<and> b <s s) (digits s)"
proof -
  have "digits s ! Suc i = digits s ! i + 1 \<and> digits s ! Suc i <s s"
    if "Suc i < length (digits s)" for i
  proof -
    have "digits s ! Suc i \<in> set (digits s)" using that by (rule nth_mem)
    then have "digits s ! Suc i <s s" by (simp add: digits_set)
    moreover have "digits s ! Suc i = digits s ! i + 1"
      using that by (simp add: digits_nth)
    ultimately show ?thesis by simp
  qed
  then show ?thesis unfolding successively_conv_nth by blast
qed

lemma digits_pos:
  assumes "0 <s s"
  shows "digits s \<noteq> []" and "hd (digits s) = 0" and "last (digits s) + 1 = s"
proof -
  have pos: "0 < sint s" using assms by (simp add: word_sless_alt)
  then show ne: "digits s \<noteq> []" by (simp add: digits_def)
  show "hd (digits s) = 0"
    using pos by (simp add: digits_def hd_map upt_conv_Cons)
  have "last (digits s) = digits s ! (nat (sint s) - 1)"
    using ne by (simp add: last_conv_nth)
  also have "\<dots> = of_nat (nat (sint s) - 1)"
    using pos by (simp add: digits_nth)
  finally have "last (digits s) + 1 = of_nat (Suc (nat (sint s) - 1))" by simp
  also have "\<dots> = of_nat (nat (sint s))" using pos by simp
  also have "\<dots> = s" using assms by (intro of_nat_nat_sint_64) (simp add: word_sle_eq word_sless_alt)
  finally show "last (digits s) + 1 = s" .
qed

lemma digits_distinct: "distinct (digits s)"
proof -
  have "inj_on (of_nat :: nat \<Rightarrow> 64 word) {0..<nat (sint s)}"
  proof (rule inj_onI)
    fix x y assume "x \<in> {0..<nat (sint s)}" "y \<in> {0..<nat (sint s)}"
      and eq: "(of_nat x :: 64 word) = of_nat y"
    then have "x < nat (sint s)" "y < nat (sint s)" by simp_all
    then have "sint (of_nat x :: 64 word) = int x" "sint (of_nat y :: 64 word) = int y"
      using sint_word_of_nat_lt [of x s] sint_word_of_nat_lt [of y s] by blast+
    then have "int x = int y" using eq by metis
    then show "x = y" by simp
  qed
  then show ?thesis by (simp add: digits_def distinct_map)
qed

lemma digits_sorted: "sorted_wrt (\<lambda>a b. a <s b) (digits s)"
proof -
  have "digits s ! i <s digits s ! j" if "i < j" "j < length (digits s)" for i j
  proof -
    have ij: "i < nat (sint s)" "j < nat (sint s)" using that by simp_all
    have "sint (digits s ! i) = int i" "sint (digits s ! j) = int j"
      using ij sint_word_of_nat_lt [of i s] sint_word_of_nat_lt [of j s]
      by (simp_all add: digits_nth)
    then show ?thesis using that(1) by (simp add: word_sless_alt)
  qed
  then show ?thesis by (simp add: sorted_wrt_iff_nth_less)
qed


subsection \<open>One increment along the row-major list\<close>

lemma odometer_snoc:
  "length a = length b \<Longrightarrow>
   odometer (a @ [i]) (b @ [s]) =
     (case odometer a b of
        Inl e \<Rightarrow> Inl e
      | Inr (Some a') \<Rightarrow> Inr (Some (a' @ [i]))
      | Inr None \<Rightarrow>
          (if i = 0x7FFFFFFFFFFFFFFF then Inl UndefinedBehaviour
           else if i + 1 <s s then Inr (Some (replicate (length a) 0 @ [i + 1]))
           else Inr None))"
proof (induction a b rule: list_induct2)
  case Nil
  then show ?case by simp
next
  case (Cons x xs y ys)
  then show ?case
    by (simp split: sum.splits option.splits)
qed

lemma steps_to_Cons:
  "steps_to ss a b \<Longrightarrow> steps_to (s # ss) (d # a) (d # b)"
  by (simp add: steps_to_def odometer_snoc)

lemma carry_step:
  assumes "carries_out ss a" and "d \<noteq> 0x7FFFFFFFFFFFFFFF" and "d + 1 <s s"
  shows "steps_to (s # ss) (d # a) ((d + 1) # replicate (length ss) 0)"
  using assms by (simp add: steps_to_def carries_out_def odometer_snoc)

lemma carry_carry:
  assumes "carries_out ss a" and "d \<noteq> 0x7FFFFFFFFFFFFFFF" and "\<not> d + 1 <s s"
  shows "carries_out (s # ss) (d # a)"
  using assms by (simp add: carries_out_def odometer_snoc)

lemma block_chain:
  assumes L: "L \<noteq> []" "successively (steps_to ss) L" "carries_out ss (last L)"
    "hd L = replicate (length ss) 0"
  shows "\<forall>d \<in> set ds. d \<noteq> 0x7FFFFFFFFFFFFFFF \<Longrightarrow>
         successively (\<lambda>a b. b = a + 1 \<and> b <s s) ds \<Longrightarrow>
         successively (steps_to (s # ss)) (concat (map (\<lambda>x. map (Cons x) L) ds))"
proof (induction ds)
  case Nil
  then show ?case by simp
next
  case (Cons d ds)
  have first: "successively (steps_to (s # ss)) (map (Cons d) L)"
    unfolding successively_map
    by (rule successively_mono [OF L(2)]) (rule steps_to_Cons)
  have rest: "successively (steps_to (s # ss)) (concat (map (\<lambda>x. map (Cons x) L) ds))"
    using Cons by (auto simp: successively_Cons)
  have link: "steps_to (s # ss) (last (map (Cons d) L)) (hd (concat (map (\<lambda>x. map (Cons x) L) ds)))"
    if ne: "ds \<noteq> []"
  proof -
    obtain d' ds' where ds: "ds = d' # ds'" using ne by (cases ds) auto
    have d': "d' = d + 1 \<and> d' <s s"
      using Cons.prems(2) unfolding ds successively.simps by blast
    then have d1: "d + 1 <s s" by blast
    have "hd (concat (map (\<lambda>x. map (Cons x) L) ds)) = d' # hd L"
      using L(1) ds by (simp add: hd_map)
    moreover have "last (map (Cons d) L) = d # last L"
      using L(1) by (simp add: last_map)
    moreover have "steps_to (s # ss) (d # last L) ((d + 1) # replicate (length ss) 0)"
      using L(3) Cons.prems(1) d1 by (intro carry_step) simp_all
    ultimately show ?thesis using d' L(4) by simp
  qed
  show ?case
    using first rest link L(1) by (auto simp: successively_append_iff)
qed

lemma row_major_Nil [simp]: "row_major [] = [[]]"
  by (simp add: row_major_def)

lemma row_major_Cons:
  "row_major (s # ss) = concat (map (\<lambda>x. map (Cons x) (row_major ss)) (digits s))"
  by (simp add: row_major_def)


lemma concat_map_nonempty:
  "ds \<noteq> [] \<Longrightarrow> L \<noteq> [] \<Longrightarrow> concat (map (\<lambda>x. map (Cons x) L) ds) \<noteq> []"
  by (cases ds) auto

lemma hd_concat_map:
  "ds \<noteq> [] \<Longrightarrow> L \<noteq> [] \<Longrightarrow> hd (concat (map (\<lambda>x. map (Cons x) L) ds)) = hd ds # hd L"
  by (cases ds) (auto simp: hd_map)

lemma last_concat_map:
  "ds \<noteq> [] \<Longrightarrow> L \<noteq> [] \<Longrightarrow> last (concat (map (\<lambda>x. map (Cons x) L) ds)) = last ds # last L"
proof (induction ds rule: rev_induct)
  case Nil
  then show ?case by simp
next
  case (snoc d ds)
  then show ?case by (simp add: last_map)
qed

lemma row_major_chain:
  assumes "\<forall>s \<in> set ss. 0 <s s"
  shows "row_major ss \<noteq> [] \<and> hd (row_major ss) = replicate (length ss) 0 \<and>
         successively (steps_to ss) (row_major ss) \<and> carries_out ss (last (row_major ss))"
  using assms
proof (induction ss)
  case Nil
  then show ?case by (simp add: carries_out_def)
next
  case (Cons s ss)
  let ?L = "row_major ss"
  have IH: "?L \<noteq> []" "hd ?L = replicate (length ss) 0" "successively (steps_to ss) ?L"
    "carries_out ss (last ?L)"
    using Cons by simp_all
  have s: "0 <s s" using Cons.prems by simp
  note dp = digits_pos [OF s]
  have nm: "\<forall>d \<in> set (digits s). d \<noteq> 0x7FFFFFFFFFFFFFFF"
    using digits_not_max by blast
  have chain: "successively (steps_to (s # ss)) (row_major (s # ss))"
    unfolding row_major_Cons
    by (rule block_chain [OF IH(1) IH(3) IH(4) IH(2) nm digits_successively])
  have ne: "row_major (s # ss) \<noteq> []"
    unfolding row_major_Cons using dp(1) IH(1) by (rule concat_map_nonempty)
  have hd: "hd (row_major (s # ss)) = replicate (length (s # ss)) 0"
    unfolding row_major_Cons using hd_concat_map [OF dp(1) IH(1)] dp(2) IH(2) by simp
  have lastd: "last (digits s) \<in> set (digits s)" using dp(1) by simp
  have nlt: "\<not> last (digits s) + 1 <s s" using dp(3) by (simp add: word_sless_alt)
  have "carries_out (s # ss) (last (digits s) # last ?L)"
    using IH(4) nm lastd nlt by (intro carry_carry) auto
  then have carry: "carries_out (s # ss) (last (row_major (s # ss)))"
    unfolding row_major_Cons using last_concat_map [OF dp(1) IH(1)] by simp
  show ?case using ne hd chain carry by simp
qed


subsection \<open>Products of 64-bit sizes\<close>

lemma prod_list_word_of_int:
  "(prod_list xs :: 64 word) = word_of_int (prod_list (map sint xs))"
  by (induction xs) simp_all

lemma prod_list_zero_word: "(0 :: 64 word) \<in> set xs \<Longrightarrow> prod_list xs = 0"
  by (induction xs) auto

lemma prod_list_sint_pos:
  "\<forall>x \<in> set xs. 0 < sint (x :: 64 word) \<Longrightarrow> 1 \<le> prod_list (map sint xs)"
proof (induction xs)
  case Nil
  then show ?case by simp
next
  case (Cons x xs)
  then have "1 \<le> sint x" "1 \<le> prod_list (map sint xs)" by simp_all
  then have "1 * 1 \<le> sint x * prod_list (map sint xs)"
    by (intro mult_mono) simp_all
  then show ?case by simp
qed

lemma prod_list_sint_nonneg:
  "\<forall>x \<in> set xs. 0 \<le> sint (x :: 64 word) \<Longrightarrow> 0 \<le> prod_list (map sint xs)"
  by (induction xs) simp_all

lemma sint_prod_list:
  assumes "\<forall>x \<in> set xs. 0 \<le> sint (x :: 64 word)" and "prod_list (map sint xs) < 2 ^ 63"
  shows "sint (prod_list xs) = prod_list (map sint xs)"
proof -
  have "0 \<le> prod_list (map sint xs)" using assms(1) by (rule prod_list_sint_nonneg)
  then have "- (2 ^ 63) \<le> prod_list (map sint xs)"
    by (rule order_trans [rotated]) simp
  then show ?thesis
    using assms(2) by (simp add: prod_list_word_of_int signed_of_int signed_take_bit_int_eq_self)
qed

lemma prod_list_take_le:
  assumes "\<forall>x \<in> set xs. 0 < sint (x :: 64 word)"
  shows "prod_list (map sint (take m xs)) \<le> prod_list (map sint xs)"
proof -
  have t: "\<forall>x \<in> set (take m xs). 0 < sint x" and d: "\<forall>x \<in> set (drop m xs). 0 < sint x"
    using assms by (auto dest: in_set_takeD in_set_dropD)
  have "prod_list (map sint xs) =
        prod_list (map sint (take m xs)) * prod_list (map sint (drop m xs))"
    by (metis append_take_drop_id map_append prod_list.append)
  moreover have "1 \<le> prod_list (map sint (drop m xs))" using d by (rule prod_list_sint_pos)
  moreover have "0 \<le> prod_list (map sint (take m xs))"
    using prod_list_sint_pos [OF t] by linarith
  ultimately show ?thesis
    using mult_left_mono [of 1 "prod_list (map sint (drop m xs))" "prod_list (map sint (take m xs))"]
    by simp
qed

subsection \<open>The tuples of the row-major enumeration\<close>

lemma row_major_set:
  "set (row_major ss) =
     {t. length t = length ss \<and> (\<forall>k < length ss. 0 \<le>s t ! k \<and> t ! k <s ss ! k)}"
  unfolding row_major_def product_lists_set
  by (auto simp: list_all2_conv_all_nth digits_set)

lemma row_major_distinct: "distinct (row_major ss)"
  unfolding row_major_def by (rule distinct_product_lists) (auto simp: digits_distinct)

lemma length_concat_map_Cons:
  "length (concat (map (\<lambda>x. map (Cons x) L) ds)) = length ds * length L"
  by (induction ds) simp_all

lemma row_major_length:
  "\<forall>s \<in> set ss. 0 \<le> sint s \<Longrightarrow> int (length (row_major ss)) = prod_list (map sint ss)"
  by (induction ss) (simp_all add: row_major_Cons length_concat_map_Cons)

lemma row_major_empty: "\<exists>s \<in> set ss. sint s \<le> 0 \<Longrightarrow> row_major ss = []"
proof (induction ss)
  case Nil
  then show ?case by simp
next
  case (Cons s ss)
  show ?case
  proof (cases "sint s \<le> 0")
    case True
    then have "digits s = []" by (simp add: digits_def)
    then show ?thesis by (simp add: row_major_Cons)
  next
    case False
    then have "row_major ss = []" using Cons by auto
    then show ?thesis by (simp add: row_major_Cons)
  qed
qed

lemma sentinel_not_emitted: "[- 1] \<notin> set (row_major ss)"
proof
  assume "[- 1] \<in> set (row_major ss)"
  then have l: "length [- 1 :: 64 word] = length ss"
    and a: "\<forall>k < length ss. 0 \<le>s [- 1 :: 64 word] ! k \<and> [- 1 :: 64 word] ! k <s ss ! k"
    unfolding row_major_set by blast+
  have "0 < length ss" using l by (cases ss) simp_all
  then have "0 \<le>s [- 1 :: 64 word] ! 0" using a by blast
  then show False by (simp add: word_sle_eq)
qed

lemma lex_less_Cons:
  "lex_less (x # a) (y # b) \<longleftrightarrow> x <s y \<or> x = y \<and> lex_less a b"
  by (simp add: lex_less_def)

lemma sorted_block:
  assumes "sorted_wrt lex_less L"
  shows "sorted_wrt (\<lambda>a b. a <s b) ds \<Longrightarrow>
         sorted_wrt lex_less (concat (map (\<lambda>x. map (Cons x) L) ds))"
proof (induction ds)
  case Nil
  then show ?case by simp
next
  case (Cons d ds)
  have "sorted_wrt lex_less (map (Cons d) L)"
    using assms by (simp add: sorted_wrt_map lex_less_Cons)
  moreover have "sorted_wrt lex_less (concat (map (\<lambda>x. map (Cons x) L) ds))"
    using Cons by simp
  moreover have "lex_less a b"
    if ma: "a \<in> set (map (Cons d) L)"
      and mb: "b \<in> set (concat (map (\<lambda>x. map (Cons x) L) ds))" for a b
  proof -
    obtain a' where a: "a = d # a'" using ma by auto
    obtain d' b' where b: "b = d' # b'" "d' \<in> set ds" using mb by auto
    have "d <s d'" using Cons.prems b(2) by simp
    then show ?thesis using a b(1) by (simp add: lex_less_Cons)
  qed
  ultimately show ?case by (simp add: sorted_wrt_append)
qed

lemma row_major_sorted: "sorted_wrt lex_less (row_major ss)"
  by (induction ss) (simp_all add: row_major_Cons sorted_block digits_sorted)


subsection \<open>The iterator on a well-formed view\<close>

lemma unat_rank:
  assumes "length (sizes v) < 2 ^ 63" and "0 \<le>s value_or (numVectorDims v) 0"
    and "unat (value_or (numVectorDims v) 0) \<le> length (sizes v)"
  shows "unat (rank v) = length (sizes v) - unat (value_or (numVectorDims v) 0)"
proof -
  let ?n = "value_or (numVectorDims v) 0"
  have r: "sint (rank v) = int (length (sizes v)) - sint ?n"
    using rank_sint [OF assms(1,2)] .
  have n: "int (unat ?n) = sint ?n" using assms(2) by (rule unat_nonneg_64)
  have le: "sint ?n \<le> int (length (sizes v))" using n assms(3) by linarith
  have pos: "0 \<le>s rank v" using r le by (simp add: word_sle_eq)
  have "int (unat (rank v)) = sint (rank v)" using pos by (rule unat_nonneg_64)
  then show ?thesis using r n assms(3) by linarith
qed

lemma enumerated_sizes_length:
  "length (enumerated_sizes v incl) =
     length (sizes v) - (if incl then 0 else unat (value_or (numVectorDims v) 0))"
  by (simp add: enumerated_sizes_def drop_back_def)

lemma begin_length:
  assumes "length (sizes v) < 2 ^ 63" and "0 \<le>s value_or (numVectorDims v) 0"
    and "unat (value_or (numVectorDims v) 0) \<le> length (sizes v)"
  shows "unat (rank v + (if incl then value_or (numVectorDims v) 0 else 0)) =
         length (enumerated_sizes v incl)"
proof (cases incl)
  case True
  have "rank v + value_or (numVectorDims v) 0 = of_nat (length (sizes v))"
    by (simp add: rank_def)
  then show ?thesis
    using True assms(1) by (simp add: enumerated_sizes_length unat_of_nat_len_64)
next
  case False
  then show ?thesis using unat_rank [OF assms] by (simp add: enumerated_sizes_length)
qed

lemma op_inc_sizes:
  assumes "0 \<le>s value_or (numVectorDims v) 0"
    and "unat (value_or (numVectorDims v) 0) \<le> length (sizes v)"
  shows "(if incl then Inr (rev (sizes v))
          else advance (rev (sizes v)) (value_or (numVectorDims v) 0)) =
         Inr (rev (enumerated_sizes v incl))"
  using assms by (simp add: advance_def enumerated_sizes_def drop_back_def drop_rev)

lemma op_inc_alt:
  assumes "0 \<le>s value_or (numVectorDims v) 0"
    and "unat (value_or (numVectorDims v) 0) \<le> length (sizes v)"
  shows "op_inc (mk_it v incl a) =
     (case odometer (rev a) (rev (enumerated_sizes v incl)) of
        Inl e \<Rightarrow> Inl e
      | Inr None \<Rightarrow> Inr (mk_it v incl [- 1])
      | Inr (Some is) \<Rightarrow> Inr (mk_it v incl (rev is)))"
proof (cases incl)
  case True
  then show ?thesis
    by (simp add: op_inc_def mk_it_def enumerated_sizes_def drop_back_def
        split: sum.splits option.splits)
next
  case False
  then show ?thesis
    using op_inc_sizes [OF assms, of False]
    by (simp add: op_inc_def mk_it_def split: sum.splits option.splits)
qed

lemma op_inc_step:
  assumes "0 \<le>s value_or (numVectorDims v) 0"
    and "unat (value_or (numVectorDims v) 0) \<le> length (sizes v)"
    and "steps_to (enumerated_sizes v incl) a b"
  shows "op_inc (mk_it v incl a) = Inr (mk_it v incl b)"
  using assms(3) by (simp add: op_inc_alt [OF assms(1,2)] steps_to_def)

lemma op_inc_carry:
  assumes "0 \<le>s value_or (numVectorDims v) 0"
    and "unat (value_or (numVectorDims v) 0) \<le> length (sizes v)"
    and "carries_out (enumerated_sizes v incl) a"
  shows "op_inc (mk_it v incl a) = Inr (mk_it v incl [- 1])"
  using assms(3) by (simp add: op_inc_alt [OF assms(1,2)] carries_out_def)

lemma range_for_chain:
  assumes step: "\<And>a b. steps_to ss a b \<Longrightarrow> op_inc (mk_it v incl a) = Inr (mk_it v incl b)"
    and carry: "\<And>a. carries_out ss a \<Longrightarrow> op_inc (mk_it v incl a) = Inr (mk_it v incl [- 1])"
    and e: "viewIndices e = [- 1]"
  shows "L \<noteq> [] \<Longrightarrow> successively (steps_to ss) L \<Longrightarrow> carries_out ss (last L) \<Longrightarrow>
         [- 1] \<notin> set L \<Longrightarrow>
         range_for (mk_it v incl (hd L)) e = Some (Inr (L, mk_it v incl [- 1]))"
proof (induction L rule: list_nonempty_induct)
  case (single t)
  have stop: "range_for (mk_it v incl [- 1]) e = Some (Inr ([], mk_it v incl [- 1]))"
    using e by (subst range_for.simps) (simp add: it_eq_def mk_it_def)
  have "op_inc (mk_it v incl t) = Inr (mk_it v incl [- 1])"
    using single by (intro carry) simp
  moreover have "t \<noteq> [- 1]" using single(3) by auto
  then have "\<not> it_eq (mk_it v incl t) e"
    using e by (simp add: it_eq_def mk_it_def)
  ultimately show ?case
    using stop single by (subst range_for.simps) (simp add: mk_it_def)
next
  case (cons t L)
  have "steps_to ss t (hd L)" using cons by (simp add: successively_Cons)
  then have inc: "op_inc (mk_it v incl t) = Inr (mk_it v incl (hd L))" by (rule step)
  have rest: "range_for (mk_it v incl (hd L)) e = Some (Inr (L, mk_it v incl [- 1]))"
    using cons by (simp add: successively_Cons)
  have "t \<noteq> [- 1]" using cons.prems(3) by auto
  then have "\<not> it_eq (mk_it v incl t) e"
    using e by (simp add: it_eq_def mk_it_def)
  then show ?case
    using inc rest by (subst range_for.simps) (simp add: mk_it_def)
qed


lemma getNumElements_enumerated:
  "getNumElements v incl = prod_list (enumerated_sizes v incl)"
  by (simp add: getNumElements_def enumerated_sizes_def)

lemma enumerated_sizes_take:
  "enumerated_sizes v False = take (length (enumerated_sizes v False)) (enumerated_sizes v incl)"
  by (cases incl) (simp_all add: enumerated_sizes_def drop_back_def)

lemma enumerated_sizes_prefix:
  "enumerated_sizes v incl = take (length (enumerated_sizes v incl)) (sizes v)"
  by (simp add: enumerated_sizes_def drop_back_def)

lemma inBounds_enumerated:
  assumes "length t = length (enumerated_sizes v incl)"
  shows "inBounds v t \<longleftrightarrow>
         (\<forall>k < length (enumerated_sizes v incl).
            0 \<le>s t ! k \<and> t ! k <s enumerated_sizes v incl ! k)"
proof -
  let ?es = "enumerated_sizes v incl"
  have le: "length ?es \<le> length (sizes v)"
    by (simp add: enumerated_sizes_def drop_back_def)
  have nth: "?es ! k = sizes v ! k" if "k < length ?es" for k
    using that by (subst enumerated_sizes_prefix) simp
  have "inBounds v t \<longleftrightarrow> (\<forall>k < length t. 0 \<le>s t ! k \<and> t ! k <s sizes v ! k)"
    using assms le by (simp add: inBounds_def list_all_length)
  then show ?thesis using assms nth by simp
qed

lemma guard_nonzero:
  assumes pos: "\<forall>s \<in> set (enumerated_sizes v incl). 0 <s s"
    and fits: "prod_list (map sint (enumerated_sizes v incl)) < 2 ^ 63"
  shows "getNumElements v False \<noteq> 0"
proof -
  let ?es = "enumerated_sizes v incl" and ?ts = "enumerated_sizes v False"
  have p: "\<forall>s \<in> set ?es. 0 < sint s" using pos by (simp add: word_sless_alt)
  have ts: "?ts = take (length ?ts) ?es" by (rule enumerated_sizes_take)
  have pt: "\<forall>s \<in> set ?ts. 0 < sint s"
    using p by (subst ts) (auto dest: in_set_takeD)
  have "prod_list (map sint ?ts) \<le> prod_list (map sint ?es)"
    using prod_list_take_le [OF p, of "length ?ts"] ts by simp
  then have lt: "prod_list (map sint ?ts) < 2 ^ 63" using fits by linarith
  have "\<forall>s \<in> set ?ts. 0 \<le> sint s" using pt by auto
  then have "sint (prod_list ?ts) = prod_list (map sint ?ts)"
    using lt by (rule sint_prod_list)
  moreover have "1 \<le> prod_list (map sint ?ts)" using pt by (rule prod_list_sint_pos)
  ultimately have "sint (prod_list ?ts) \<noteq> 0" by linarith
  then have "prod_list ?ts \<noteq> 0" by auto
  then show ?thesis by (simp add: getNumElements_enumerated)
qed

lemma begin_cases:
  assumes len: "length (sizes v) < 2 ^ 63"
    and n0: "0 \<le>s value_or (numVectorDims v) 0"
    and nle: "unat (value_or (numVectorDims v) 0) \<le> length (sizes v)"
    and nonneg: "\<forall>s \<in> set (enumerated_sizes v incl). 0 \<le>s s"
    and fits: "prod_list (map sint (enumerated_sizes v incl)) < 2 ^ 63"
    and zero: "0 \<in> set (enumerated_sizes v incl) \<longrightarrow> 0 \<in> set (enumerated_sizes v False)"
  shows "begin_it (indices v incl) = end_it (indices v incl) \<and>
           row_major (enumerated_sizes v incl) = [] \<or>
         begin_it (indices v incl) = mk_it v incl (hd (row_major (enumerated_sizes v incl))) \<and>
           row_major (enumerated_sizes v incl) \<noteq> [] \<and>
           successively (steps_to (enumerated_sizes v incl)) (row_major (enumerated_sizes v incl)) \<and>
           carries_out (enumerated_sizes v incl) (last (row_major (enumerated_sizes v incl)))"
proof (cases "0 \<in> set (enumerated_sizes v False)")
  case True
  then have g: "getNumElements v False = 0"
    by (simp add: getNumElements_enumerated prod_list_zero_word)
  have "set (enumerated_sizes v False) \<subseteq> set (enumerated_sizes v incl)"
    by (subst enumerated_sizes_take [of v incl]) (rule set_take_subset)
  then have "0 \<in> set (enumerated_sizes v incl)" using True by blast
  then have "\<exists>s \<in> set (enumerated_sizes v incl). sint s \<le> 0" by force
  then have "row_major (enumerated_sizes v incl) = []" by (rule row_major_empty)
  then show ?thesis using g by (simp add: begin_it_def indices_def)
next
  case False
  let ?es = "enumerated_sizes v incl"
  have nz: "0 \<notin> set ?es" using False zero by blast
  have pos: "\<forall>s \<in> set ?es. 0 <s s"
  proof
    fix s assume s: "s \<in> set ?es"
    then have "0 \<le> sint s" using nonneg by (simp add: word_sle_eq)
    moreover have "s \<noteq> 0" using s nz by metis
    then have "sint s \<noteq> 0" by (simp add: signed_eq_0_iff)
    ultimately show "0 <s s" by (simp add: word_sless_alt)
  qed
  have g: "getNumElements v False \<noteq> 0" using pos fits by (rule guard_nonzero)
  note ch = row_major_chain [OF pos]
  have b: "begin_it (indices v incl) = mk_it v incl (hd (row_major ?es))"
    using g ch begin_length [OF len n0 nle, of incl]
    by (cases incl) (simp_all add: begin_it_def indices_def mk_it_def)
  show ?thesis using b ch by simp
qed

lemma emitted_row_major:
  assumes len: "length (sizes v) < 2 ^ 63"
    and n0: "0 \<le>s value_or (numVectorDims v) 0"
    and nle: "unat (value_or (numVectorDims v) 0) \<le> length (sizes v)"
    and nonneg: "\<forall>s \<in> set (enumerated_sizes v incl). 0 \<le>s s"
    and fits: "prod_list (map sint (enumerated_sizes v incl)) < 2 ^ 63"
    and zero: "0 \<in> set (enumerated_sizes v incl) \<longrightarrow> 0 \<in> set (enumerated_sizes v False)"
  shows "\<exists>fin. emitted v incl = Some (Inr (row_major (enumerated_sizes v incl), fin)) \<and>
               viewIndices fin = [- 1]"
  using begin_cases [OF assms]
proof (elim disjE conjE)
  assume "begin_it (indices v incl) = end_it (indices v incl)"
    and "row_major (enumerated_sizes v incl) = []"
  then show ?thesis
    by (simp add: emitted_def range_for.simps it_eq_def end_it_def)
next
  let ?es = "enumerated_sizes v incl"
  assume b: "begin_it (indices v incl) = mk_it v incl (hd (row_major ?es))"
    and ch: "row_major ?es \<noteq> []" "successively (steps_to ?es) (row_major ?es)"
      "carries_out ?es (last (row_major ?es))"
  have "range_for (mk_it v incl (hd (row_major ?es))) (end_it (indices v incl)) =
        Some (Inr (row_major ?es, mk_it v incl [- 1]))"
  proof (rule range_for_chain [where ss = ?es])
    show "op_inc (mk_it v incl a) = Inr (mk_it v incl b)" if "steps_to ?es a b" for a b
      using n0 nle that by (rule op_inc_step)
    show "op_inc (mk_it v incl a) = Inr (mk_it v incl [- 1])" if "carries_out ?es a" for a
      using n0 nle that by (rule op_inc_carry)
    show "viewIndices (end_it (indices v incl)) = [- 1]" by (simp add: end_it_def)
    show "row_major ?es \<noteq> []" "successively (steps_to ?es) (row_major ?es)"
      "carries_out ?es (last (row_major ?es))"
      using ch by simp_all
    show "[- 1] \<notin> set (row_major ?es)" by (rule sentinel_not_emitted)
  qed
  then show ?thesis using b by (simp add: emitted_def mk_it_def)
qed


text \<open>
  Claim C1, as the code has it. Let the view have fewer than \<open>2^63\<close> dimensions, a
  \<^verbatim>\<open>numVectorDims\<close> that is unset or between 0 and \<^verbatim>\<open>sizes.size()\<close>, non-negative sizes
  in the enumerated dimensions whose product is below \<open>2^63\<close>, and let some non-vector
  dimension be empty whenever some enumerated dimension is. Then the loop over
  \<^verbatim>\<open>indices(includeVectorDims)\<close> stops, at an iterator equal to \<^verbatim>\<open>end()\<close> with the single
  entry -1, and it has emitted the row-major list of the index tuples over the enumerated
  sizes: these are exactly the tuples of that length that are in bounds, each once, in
  increasing lexicographic order, and their number is \<^verbatim>\<open>getNumElements(includeVectorDims)\<close>.
\<close>

theorem indices_row_major:
  assumes "length (sizes v) < 2 ^ 63"
    and "0 \<le>s value_or (numVectorDims v) 0"
    and "unat (value_or (numVectorDims v) 0) \<le> length (sizes v)"
    and "\<forall>s \<in> set (enumerated_sizes v incl). 0 \<le>s s"
    and "prod_list (map sint (enumerated_sizes v incl)) < 2 ^ 63"
    and "0 \<in> set (enumerated_sizes v incl) \<longrightarrow> 0 \<in> set (enumerated_sizes v False)"
  shows "(\<exists>fin. emitted v incl = Some (Inr (row_major (enumerated_sizes v incl), fin)) \<and>
                it_eq fin (end_it (indices v incl)) \<and> viewIndices fin = [- 1]) \<and>
         set (row_major (enumerated_sizes v incl)) =
           {t. length t = length (enumerated_sizes v incl) \<and> inBounds v t} \<and>
         distinct (row_major (enumerated_sizes v incl)) \<and>
         sorted_wrt lex_less (row_major (enumerated_sizes v incl)) \<and>
         int (length (row_major (enumerated_sizes v incl))) = sint (getNumElements v incl)"
proof -
  let ?es = "enumerated_sizes v incl"
  obtain fin where fin: "emitted v incl = Some (Inr (row_major ?es, fin))"
      "viewIndices fin = [- 1]"
    using emitted_row_major [OF assms] by blast
  have stop: "it_eq fin (end_it (indices v incl))"
    using fin(2) by (simp add: it_eq_def end_it_def)
  have nn: "\<forall>s \<in> set ?es. 0 \<le> sint s" using assms(4) by (simp add: word_sle_eq)
  have inb: "set (row_major ?es) = {t. length t = length ?es \<and> inBounds v t}"
    unfolding row_major_set using inBounds_enumerated [of _ v incl] by auto
  have "int (length (row_major ?es)) = prod_list (map sint ?es)"
    using nn by (rule row_major_length)
  also have "\<dots> = sint (prod_list ?es)"
    using sint_prod_list [OF nn assms(5)] by simp
  finally have count: "int (length (row_major ?es)) = sint (getNumElements v incl)"
    by (simp add: getNumElements_enumerated)
  show ?thesis
    using fin stop inb count row_major_distinct [of ?es] row_major_sorted [of ?es] by blast
qed

text \<open>
  The theorem at the tensor of shape [2,3] with vector shape [4], enumerated without the
  vector dimension.
\<close>

theorem indices_row_major_witness:
  "(\<exists>fin. emitted \<lparr>offset = 0, sizes = [2, 3, 4], strides = [12, 4, 1],
                    numVectorDims = Some 1, isVector = False\<rparr> False =
            Some (Inr ([[0, 0], [0, 1], [0, 2], [1, 0], [1, 1], [1, 2]], fin)) \<and>
          viewIndices fin = [- 1]) \<and>
   sint (getNumElements \<lparr>offset = 0, sizes = [2, 3, 4], strides = [12, 4, 1],
                         numVectorDims = Some 1, isVector = False\<rparr> False) = 6"
proof -
  let ?v = "\<lparr>offset = 0, sizes = [2, 3, 4], strides = [12, 4, 1],
              numVectorDims = Some 1, isVector = False\<rparr>"
  have es: "enumerated_sizes ?v False = [2, 3]" by code_simp
  have rm: "row_major [2, 3] = [[0, 0], [0, 1], [0, 2], [1, 0], [1, 1], [1, 2]]" by code_simp
  have h1: "length (sizes ?v) < 2 ^ 63" by simp
  have h2: "0 \<le>s value_or (numVectorDims ?v) 0" by (simp add: word_sle_eq)
  have h3: "unat (value_or (numVectorDims ?v) 0) \<le> length (sizes ?v)" by simp
  have h4: "\<forall>s \<in> set (enumerated_sizes ?v False). 0 \<le>s s"
    unfolding es by (simp add: word_sle_eq)
  have h5: "prod_list (map sint (enumerated_sizes ?v False)) < 2 ^ 63" unfolding es by simp
  have h6: "0 \<in> set (enumerated_sizes ?v False) \<longrightarrow> 0 \<in> set (enumerated_sizes ?v False)"
    by simp
  show ?thesis
    using indices_row_major [OF h1 h2 h3 h4 h5 h6] unfolding es rm by auto
qed

text \<open>
  Claim C1 as stated fails on a view that nothing in the code rules out: with the single
  size -1 the guard of \<^verbatim>\<open>begin()\<close> sees \<^verbatim>\<open>getNumElements() = -1\<close>, and the sequence
  emits the tuple (0), which is not in bounds.
\<close>

theorem indices_negative_size_counterexample:
  "emitted \<lparr>offset = 0, sizes = [- 1], strides = [1], numVectorDims = None,
            isVector = False\<rparr> False =
     Some (Inr ([[0]], \<lparr>it_view = \<lparr>offset = 0, sizes = [- 1], strides = [1],
                                   numVectorDims = None, isVector = False\<rparr>,
                        viewIndices = [- 1], includeVectorDims = False\<rparr>)) \<and>
   \<not> inBounds \<lparr>offset = 0, sizes = [- 1], strides = [1], numVectorDims = None,
               isVector = False\<rparr> [0] \<and>
   getNumElements \<lparr>offset = 0, sizes = [- 1], strides = [1], numVectorDims = None,
                   isVector = False\<rparr> False = - 1"
  by code_simp

text \<open>
  Claim C2 at the view with sizes [2,0] of which the last is a vector dimension,
  enumerated with the vector dimensions: \<^verbatim>\<open>getNumElements(true)\<close> is 0, but the guard of
  \<^verbatim>\<open>begin()\<close> reads \<^verbatim>\<open>getNumElements()\<close>, which is 2, so \<^verbatim>\<open>begin()\<close> differs from
  \<^verbatim>\<open>end()\<close> and the sequence emits (0,0) and (1,0), neither of which is in bounds.
\<close>

theorem begin_ignores_includeVectorDims:
  "getNumElements \<lparr>offset = 0, sizes = [2, 0], strides = [0, 1], numVectorDims = Some 1,
                   isVector = False\<rparr> True = 0 \<and>
   \<not> it_eq (begin_it (indices \<lparr>offset = 0, sizes = [2, 0], strides = [0, 1],
                                numVectorDims = Some 1, isVector = False\<rparr> True))
            (end_it (indices \<lparr>offset = 0, sizes = [2, 0], strides = [0, 1],
                              numVectorDims = Some 1, isVector = False\<rparr> True)) \<and>
   emitted \<lparr>offset = 0, sizes = [2, 0], strides = [0, 1], numVectorDims = Some 1,
            isVector = False\<rparr> True =
     Some (Inr ([[0, 0], [1, 0]],
                \<lparr>it_view = \<lparr>offset = 0, sizes = [2, 0], strides = [0, 1],
                             numVectorDims = Some 1, isVector = False\<rparr>,
                  viewIndices = [- 1], includeVectorDims = True\<rparr>)) \<and>
   \<not> inBounds \<lparr>offset = 0, sizes = [2, 0], strides = [0, 1], numVectorDims = Some 1,
               isVector = False\<rparr> [0, 0]"
  by code_simp

section \<open>Equality\<close>

lemma enumerated_sizes_True [simp]: "enumerated_sizes v True = sizes v"
  by (simp add: enumerated_sizes_def drop_back_def)











section \<open>Cloning\<close>

subsection \<open>The loop of clone\<close>



subsection \<open>Writing and reading bytes\<close>













subsection \<open>The row-major layout\<close>







subsection \<open>The element type float\<close>

lemma le_bytes_length [simp]: "length (le_bytes w) = 4"
  by (simp add: le_bytes_def)





section \<open>Sub-views\<close>

lemma physical_base:
  "length offs = length strs \<Longrightarrow> length offs \<le> length sts \<Longrightarrow> length offs \<le> length idx \<Longrightarrow>
   sum_list (map (\<lambda>(off, st). off * st) (zip offs sts)) +
   sum_list (map (\<lambda>(i, s). i * s)
     (zip idx (map (\<lambda>(st, str). st * str) (zip (take (length offs) sts) strs) @
               drop (length offs) sts))) =
   (sum_list (map (\<lambda>(i, s). i * s) (zip (base_index offs strs idx) sts)) :: 64 word)"
proof (induction offs strs idx arbitrary: sts rule: base_index.induct)
  case (1 off offs str strs i idx)
  then obtain st sts' where sts: "sts = st # sts'" by (cases sts) auto
  have "sum_list (map (\<lambda>(off, st). off * st) (zip offs sts')) +
        sum_list (map (\<lambda>(i, s). i * s)
          (zip idx (map (\<lambda>(st, str). st * str) (zip (take (length offs) sts') strs) @
                    drop (length offs) sts'))) =
        sum_list (map (\<lambda>(i, s). i * s) (zip (base_index offs strs idx) sts'))"
    using 1 sts by (intro "1.IH") simp_all
  then show ?case unfolding sts by (simp add: algebra_simps)
next
  case (2 off offs str strs)
  then show ?case by simp
next
  case (3 off offs idx)
  then show ?case by simp
next
  case (4 strs idx)
  then show ?case by simp
qed

lemma dim_valid_step:
  assumes "dim_valid bound off sz str" and "0 \<le>s i" and "i <s sz"
  shows "0 \<le>s off + i * str \<and> off + i * str <s bound"
proof -
  define out where "out = sint off + sint i * sint str"
  have a: "0 \<le> sint i" "sint i \<le> sint sz - 1"
    using assms(2,3) by (simp_all add: word_sle_eq word_sless_alt)
  then have "sint sz \<noteq> 0" by linarith
  then have v: "0 \<le> sint off" "sint off < sint bound"
      "0 \<le> sint off + (sint sz - 1) * sint str" "sint off + (sint sz - 1) * sint str < sint bound"
    using assms(1) by (simp_all add: dim_valid_def)
  have range: "0 \<le> out \<and> out < sint bound"
  proof (cases "0 \<le> sint str")
    case True
    have "sint i * sint str \<le> (sint sz - 1) * sint str"
      using a True by (intro mult_right_mono) simp_all
    moreover have "0 \<le> sint i * sint str" using a True by simp
    ultimately show ?thesis using v by (simp add: out_def)
  next
    case False
    then have neg: "sint str \<le> 0" by simp
    have "(sint sz - 1) * sint str \<le> sint i * sint str"
      using a neg by (intro mult_right_mono_neg) simp_all
    moreover have "sint i * sint str \<le> 0"
      using a neg by (simp add: mult_nonneg_nonpos)
    ultimately show ?thesis using v by (simp add: out_def)
  qed
  have "sint bound < 2 ^ 63" using sint_bounds_64 [of bound] by simp
  then have lt: "out < 2 ^ 63" using range by linarith
  have "off + i * str = (word_of_int out :: 64 word)" by (simp add: out_def)
  then have "sint (off + i * str) = out"
    using sint_word_of_int_range [of out] range lt by simp
  then show ?thesis using range by (simp add: word_sle_eq word_sless_alt)
qed

lemma base_inBounds:
  "length offs = length szs \<Longrightarrow> length szs = length strs \<Longrightarrow>
   length offs \<le> length bounds \<Longrightarrow> length offs \<le> length idx \<Longrightarrow>
   list_all (\<lambda>(bound, off, sz, str). dim_valid bound off sz str)
     (zip bounds (zip offs (zip szs strs))) \<Longrightarrow>
   list_all (\<lambda>(i, s). 0 \<le>s i \<and> i <s s) (zip idx (szs @ drop (length offs) bounds)) \<Longrightarrow>
   length (base_index offs strs idx) = length idx \<and>
   list_all (\<lambda>(i, s). 0 \<le>s i \<and> i <s s) (zip (base_index offs strs idx) bounds)"
proof (induction offs strs idx arbitrary: szs bounds rule: base_index.induct)
  case (1 off offs str strs i idx)
  obtain sz szs' where szs: "szs = sz # szs'" using 1(2,3) by (cases szs) auto
  obtain b bs where bs: "bounds = b # bs" using 1(4) by (cases bounds) auto
  have dv: "dim_valid b off sz str" and i: "0 \<le>s i" "i <s sz"
    using 1(6,7) szs bs by simp_all
  have head: "0 \<le>s off + i * str \<and> off + i * str <s b"
    using dv i by (rule dim_valid_step)
  have "length (base_index offs strs idx) = length idx \<and>
        list_all (\<lambda>(i, s). 0 \<le>s i \<and> i <s s) (zip (base_index offs strs idx) bs)"
    using 1(2-7) szs bs by (intro "1.IH" [of szs' bs]) simp_all
  then show ?case using head bs by simp
next
  case (2 off offs str strs)
  then show ?case by simp
next
  case (3 off offs idx)
  then show ?case by simp
next
  case (4 strs idx)
  then show ?case by simp
qed

lemma subview_fails:
  assumes "k < length offs" "k < length szs" "k < length strs" "k < length (sizes v)"
    and "1 \<le> sint (szs ! k)"
    and "sint (sizes v ! k) \<le> sint (offs ! k) + (sint (szs ! k) - 1) * sint (strs ! k)"
  shows "subview v offs szs strs = (False, v)"
proof (rule ccontr)
  assume "subview v offs szs strs \<noteq> (False, v)"
  then have len: "length szs = length offs" "length strs = length offs"
      "length offs \<le> length (sizes v)"
    and all: "list_all (\<lambda>(bound, off, sz, str). dim_valid bound off sz str)
                (zip (sizes v) (zip offs (zip szs strs)))"
    by (auto simp: subview_def Let_def split: if_splits)
  have "k < length (zip (sizes v) (zip offs (zip szs strs)))" using assms(1-4) by simp
  then have "dim_valid (sizes v ! k) (offs ! k) (szs ! k) (strs ! k)"
    using all assms(1-4) by (auto simp: list_all_length)
  then show False using assms(5,6) by (simp add: dim_valid_def)
qed

lemma subview_succeeds:
  assumes "subview v offs szs strs = (True, v')" and "length offs \<le> length idx"
    and "inBounds v' idx"
  shows "inBounds v (base_index offs strs idx) \<and>
         getPhysicalIndex v' idx = getPhysicalIndex v (base_index offs strs idx)"
proof -
  let ?m = "length offs"
  have len: "length szs = ?m" "length strs = ?m" "?m \<le> length (sizes v)"
      "?m \<le> length (strides v)"
    and all: "list_all (\<lambda>(bound, off, sz, str). dim_valid bound off sz str)
                (zip (sizes v) (zip offs (zip szs strs)))"
    and v': "v' = v\<lparr>offset := offset v +
                     sum_list (map (\<lambda>(off, st). off * st) (zip offs (strides v))),
                   sizes := szs @ drop ?m (sizes v),
                   strides := map (\<lambda>(st, str). st * str) (zip (take ?m (strides v)) strs) @
                              drop ?m (strides v)\<rparr>"
    using assms(1) by (auto simp: subview_def Let_def split: if_splits)
  have ib: "length idx \<le> length (sizes v)"
    "list_all (\<lambda>(i, s). 0 \<le>s i \<and> i <s s) (zip idx (szs @ drop ?m (sizes v)))"
    using assms(3) len by (simp_all add: inBounds_def v')
  have "length (base_index offs strs idx) = length idx \<and>
        list_all (\<lambda>(i, s). 0 \<le>s i \<and> i <s s) (zip (base_index offs strs idx) (sizes v))"
    using len assms(2) all ib(2) by (intro base_inBounds [of offs szs]) simp_all
  then have inb: "inBounds v (base_index offs strs idx)"
    using ib(1) by (simp add: inBounds_def)
  have "getPhysicalIndex v' idx = getPhysicalIndex v (base_index offs strs idx)"
    using physical_base [of offs strs "strides v" idx] len assms(2)
    by (simp add: getPhysicalIndex_def v' add.assoc)
  then show ?thesis using inb by simp
qed

text \<open>
  Claim C6, for the sub-view operation as the specification describes it. If in some
  dimension at least one entry is requested and the last requested index, the offset plus
  (size - 1) times the stride, is not below the current size of that dimension, then
  \<^verbatim>\<open>subview\<close> returns \<^verbatim>\<open>false\<close> and leaves the view as it was. If \<^verbatim>\<open>subview\<close> returns
  \<^verbatim>\<open>true\<close>, every index tuple that is in bounds in the new view and covers the given
  dimensions selects an index tuple that is in bounds in the original view, at the same
  physical index.
\<close>

theorem subview_reports_failure:
  "(k < length offs \<and> k < length szs \<and> k < length strs \<and> k < length (sizes v) \<and>
    1 \<le> sint (szs ! k) \<and>
    sint (sizes v ! k) \<le> sint (offs ! k) + (sint (szs ! k) - 1) * sint (strs ! k) \<longrightarrow>
    subview v offs szs strs = (False, v)) \<and>
   (subview v offs szs strs = (True, v') \<and> length offs \<le> length idx \<and> inBounds v' idx \<longrightarrow>
    inBounds v (base_index offs strs idx) \<and>
    getPhysicalIndex v' idx = getPhysicalIndex v (base_index offs strs idx))"
  using subview_fails [of k offs szs strs v] subview_succeeds [of v offs szs strs v' idx]
  by blast

text \<open>
  The example of the claim: on one dimension of size 5, the request of size 6 at offset 0
  fails. The request of size 2 at offset 1 with stride 2 succeeds, and the index 1 of the
  result is the index 3 of the original view.
\<close>

theorem subview_reports_failure_witness:
  "subview \<lparr>offset = 0, sizes = [5], strides = [1], numVectorDims = None, isVector = False\<rparr>
     [0] [6] [1] =
     (False, \<lparr>offset = 0, sizes = [5], strides = [1], numVectorDims = None, isVector = False\<rparr>) \<and>
   subview \<lparr>offset = 0, sizes = [5], strides = [1], numVectorDims = None, isVector = False\<rparr>
     [1] [2] [2] =
     (True, \<lparr>offset = 1, sizes = [2], strides = [2], numVectorDims = None, isVector = False\<rparr>) \<and>
   inBounds \<lparr>offset = 0, sizes = [5], strides = [1], numVectorDims = None, isVector = False\<rparr> [3] \<and>
   getPhysicalIndex \<lparr>offset = 1, sizes = [2], strides = [2], numVectorDims = None,
                     isVector = False\<rparr> [1] =
   getPhysicalIndex \<lparr>offset = 0, sizes = [5], strides = [1], numVectorDims = None,
                     isVector = False\<rparr> [3]"
proof -
  let ?v = "\<lparr>offset = 0, sizes = [5], strides = [1], numVectorDims = None, isVector = False\<rparr>"
  let ?w = "\<lparr>offset = 1, sizes = [2], strides = [2], numVectorDims = None, isVector = False\<rparr>"
  have ok: "subview ?v [1] [2] [2] = (True, ?w)" by code_simp
  have inb: "inBounds ?w [1]" by code_simp
  have base: "base_index [1] [2] [1] = [3 :: int64]" by simp
  have fail: "subview ?v [0] [6] [1] = (False, ?v)"
    using subview_reports_failure [of 0 "[0]" "[6]" "[1]" ?v] by simp
  have "inBounds ?v (base_index [1] [2] [1]) \<and>
        getPhysicalIndex ?w [1] = getPhysicalIndex ?v (base_index [1] [2] [1])"
    using subview_reports_failure [of 0 "[1]" "[2]" "[2]" ?v ?w "[1]"] ok inb by simp
  then show ?thesis using ok fail unfolding base by simp
qed

end
